theory Spec2Isabelle
  imports Complex_Main "HOL-Library.Word"
begin

section \<open>Pixels, the canvas and image data\<close>

text \<open>
  The watermark removal service (\<^verbatim>\<open>src/services/watermark/removalService.ts\<close>) works on
  a 2D canvas through \<^verbatim>\<open>getImageData\<close> and \<^verbatim>\<open>putImageData\<close>. The canvas is modelled as
  its dimensions and a bitmap of RGBA pixels; an \<^verbatim>\<open>ImageData\<close> as its dimensions and the
  flat \<^verbatim>\<open>Uint8ClampedArray\<close> of interleaved R, G, B, A bytes, row by row. The two canvas
  calls follow the HTML Standard: a zero width or height raises \<^verbatim>\<open>IndexSizeError\<close>, a
  negative one flips the rectangle, source pixels outside the canvas read as
  transparent black, and writes outside the canvas are dropped. The bitmap keeps the
  bytes it is given (no loss through premultiplied alpha).
\<close>

type_synonym byte = "8 word"
type_synonym rgba = "byte \<times> byte \<times> byte \<times> byte"

datatype dom_error = IndexSizeError | TypeError

record canvas =
  cwidth :: nat
  cheight :: nat
  bitmap :: "int \<Rightarrow> int \<Rightarrow> rgba"

record image_data =
  iwidth :: nat
  iheight :: nat
  idata :: "byte list"

datatype selection_type = Manual | Auto

record WatermarkSelection =
  sel_x :: rat
  sel_y :: rat
  sel_width :: rat
  sel_height :: rat
  sel_type :: selection_type

definition inCanvas :: "canvas \<Rightarrow> int \<Rightarrow> int \<Rightarrow> bool" where
  "inCanvas c px py \<longleftrightarrow> px \<ge> 0 \<and> px < int (cwidth c) \<and> py \<ge> 0 \<and> py < int (cheight c)"

definition sourcePixel :: "canvas \<Rightarrow> int \<Rightarrow> int \<Rightarrow> rgba" where
  "sourcePixel c px py = (if inCanvas c px py then bitmap c px py else (0, 0, 0, 0))"

definition pixelBytes :: "rgba \<Rightarrow> byte list" where
  "pixelBytes p = (case p of (r, g, b, a) \<Rightarrow> [r, g, b, a])"

definition getImageData :: "canvas \<Rightarrow> int \<Rightarrow> int \<Rightarrow> int \<Rightarrow> int \<Rightarrow> dom_error + image_data" where
  "getImageData c sx sy sw sh =
     (if sw = 0 \<or> sh = 0 then Inl IndexSizeError
      else
        let x0 = (if sw < 0 then sx + sw else sx);
            y0 = (if sh < 0 then sy + sh else sy);
            w = nat \<bar>sw\<bar>;
            h = nat \<bar>sh\<bar>
        in Inr \<lparr>iwidth = w, iheight = h,
                idata = concat (map (\<lambda>j. concat (map (\<lambda>i.
                          pixelBytes (sourcePixel c (x0 + int i) (y0 + int j))) [0..<w])) [0..<h])\<rparr>)"

definition dataPixel :: "byte list \<Rightarrow> nat \<Rightarrow> rgba" where
  "dataPixel d p = (d ! (4 * p), d ! (4 * p + 1), d ! (4 * p + 2), d ! (4 * p + 3))"

definition putImageData :: "canvas \<Rightarrow> image_data \<Rightarrow> int \<Rightarrow> int \<Rightarrow> canvas" where
  "putImageData c img dx dy =
     c\<lparr>bitmap := (\<lambda>px py.
         if inCanvas c px py \<and> dx \<le> px \<and> px < dx + int (iwidth img)
            \<and> dy \<le> py \<and> py < dy + int (iheight img)
         then dataPixel (idata img) (nat (py - dy) * iwidth img + nat (px - dx))
         else bitmap c px py)\<rparr>"

text \<open>
  Storing a number into a \<^verbatim>\<open>Uint8ClampedArray\<close> applies ECMAScript's ToUint8Clamp:
  clamp to 0..255, then round to the nearest integer, a tie going to the even one. The
  numbers stored here are quotients of small integers, which a double either holds
  exactly (the ties) or keeps on the same side of the tie as the exact quotient, so the
  quotient is modelled as a rational.
\<close>

definition toUint8Clamp :: "rat \<Rightarrow> byte" where
  "toUint8Clamp v =
     (let clamped = min (max v 0) 255;
          f = \<lfloor>clamped\<rfloor>
      in if clamped < of_int f + 1 / 2 then of_int f
         else if clamped > of_int f + 1 / 2 then of_int (f + 1)
         else if even f then of_int f else of_int (f + 1))"

text \<open>
  A read of a typed array past its end gives \<^verbatim>\<open>undefined\<close>, and arithmetic on it gives
  NaN: \<open>None\<close> stands for both. A NaN compares false with everything and is stored as 0;
  a division by zero gives NaN or Infinity.
\<close>

definition taGet :: "byte list \<Rightarrow> nat \<Rightarrow> nat option" where
  "taGet d i = (if i < length d then Some (unat (d ! i)) else None)"

definition numAdd :: "nat option \<Rightarrow> nat option \<Rightarrow> nat option" where
  "numAdd a b = (case a of None \<Rightarrow> None | Some m \<Rightarrow> (case b of None \<Rightarrow> None | Some n \<Rightarrow> Some (m + n)))"

definition storeQuotient :: "nat option \<Rightarrow> nat \<Rightarrow> byte" where
  "storeQuotient s count =
     (case s of
        None \<Rightarrow> 0
      | Some v \<Rightarrow>
          if count = 0 then (if v = 0 then 0 else 255)
          else toUint8Clamp (of_nat v / of_nat count))"

section \<open>The inpainter\<close>

subsection \<open>Sampling the surrounding pixels (lines 91 to 143)\<close>

text \<open>
  \<^verbatim>\<open>Math.floor(Math.min(width, height) / 4)\<close> on integers; the four loops push the pixel
  read by \<^verbatim>\<open>ctx.getImageData(px, py, 1, 1)\<close> for every position inside the canvas, in
  loop order.
\<close>

definition sampleRadius :: "int \<Rightarrow> int \<Rightarrow> int" where
  "sampleRadius width height = min 20 \<lfloor>(of_int (min width height) :: rat) / 4\<rfloor>"

definition readPixel :: "canvas \<Rightarrow> int \<Rightarrow> int \<Rightarrow> rgba" where
  "readPixel c px py =
     (case getImageData c px py 1 1 of
        Inr pixel \<Rightarrow> dataPixel (idata pixel) 0
      | Inl e \<Rightarrow> (0, 0, 0, 0))"

definition sampleStrip :: "canvas \<Rightarrow> int \<Rightarrow> int \<Rightarrow> int list \<Rightarrow> int list \<Rightarrow> rgba list" where
  "sampleStrip c x y ivals jvals =
     concat (map (\<lambda>i. concat (map (\<lambda>j.
       (let px = x + i; py = y + j
        in if px \<ge> 0 \<and> px < int (cwidth c) \<and> py \<ge> 0 \<and> py < int (cheight c)
           then [readPixel c px py] else [])) jvals)) ivals)"

definition surroundingPixels :: "canvas \<Rightarrow> int \<Rightarrow> int \<Rightarrow> int \<Rightarrow> int \<Rightarrow> rgba list" where
  "surroundingPixels c x y width height =
     (let sr = sampleRadius width height
      in sampleStrip c x y [- sr..width + sr - 1] [- sr..- 1]
         @ sampleStrip c x y [- sr..width + sr - 1] [height..height + sr - 1]
         @ sampleStrip c x y [- sr..- 1] [0..height - 1]
         @ sampleStrip c x y [width..width + sr - 1] [0..height - 1])"

subsection \<open>Filling the block (lines 145 to 172)\<close>

text \<open>
  Both fill loops run \<^verbatim>\<open>for (let i = 0; i < data.length; i += 4)\<close> over the block's bytes.
  A write past the end of a typed array is dropped, as is a list update past the end.
\<close>

function fillWhite :: "nat \<Rightarrow> byte list \<Rightarrow> byte list" where
  "fillWhite i data =
     (if i < length data
      then fillWhite (i + 4) (data[i := 255, i + 1 := 255, i + 2 := 255, i + 3 := 255])
      else data)"
  by pat_completeness auto
termination
  by (relation "measure (\<lambda>(i, data). length data - i)") auto

text \<open>
  \<^verbatim>\<open>Math.random()\<close> is an explicit source: \<open>rnd k\<close> is the value of the \<open>k\<close>-th call and
  the state is the number of calls made so far. The index \<^verbatim>\<open>Math.floor(u * length)\<close> lies
  in the pool for every \<open>u\<close> of \<open>[0, 1)\<close>; for any other value the element read is
  \<^verbatim>\<open>undefined\<close> and reading its component raises \<^verbatim>\<open>TypeError\<close>.
\<close>

definition randomPixel :: "rgba list \<Rightarrow> rat \<Rightarrow> rgba option" where
  "randomPixel pool u =
     (let k = \<lfloor>u * of_nat (length pool)\<rfloor>
      in if 0 \<le> k \<and> k < int (length pool) then Some (pool ! nat k) else None)"

fun drawSamples ::
  "rgba list \<Rightarrow> (nat \<Rightarrow> rat) \<Rightarrow> nat \<Rightarrow> nat \<Rightarrow> nat \<times> nat \<times> nat \<times> nat
     \<Rightarrow> dom_error + (nat \<times> nat \<times> nat \<times> nat)" where
  "drawSamples pool rnd n 0 acc = Inr acc"
| "drawSamples pool rnd n (Suc k) (r, g, b, a) =
     (case randomPixel pool (rnd n) of
        None \<Rightarrow> Inl TypeError
      | Some (pr, pg, pb, pa) \<Rightarrow>
          drawSamples pool rnd (Suc n) k (r + unat pr, g + unat pg, b + unat pb, a + unat pa))"

definition samples :: nat where
  "samples = 5"

function fillBlend ::
  "rgba list \<Rightarrow> (nat \<Rightarrow> rat) \<Rightarrow> nat \<Rightarrow> nat \<Rightarrow> byte list \<Rightarrow> dom_error + (byte list \<times> nat)" where
  "fillBlend pool rnd n i data =
     (if i < length data
      then (case drawSamples pool rnd n samples (0, 0, 0, 0) of
              Inl e \<Rightarrow> Inl e
            | Inr (r, g, b, a) \<Rightarrow>
                fillBlend pool rnd (n + samples) (i + 4)
                  (data[i := storeQuotient (Some r) samples,
                        i + 1 := storeQuotient (Some g) samples,
                        i + 2 := storeQuotient (Some b) samples,
                        i + 3 := storeQuotient (Some a) samples]))
      else Inr (data, n))"
  by pat_completeness auto
termination
  by (relation "measure (\<lambda>(pool, rnd, n, i, data). length data - i)") auto

subsection \<open>The blur (lines 184 to 220)\<close>

text \<open>
  \<open>kernelIdx\<close> lists, in loop order, the index \<open>idx\<close> of every neighbour the two kernel
  loops accept; each channel's sum runs over that list and \<open>count\<close> is its length. The
  loops over \<open>y\<close> and \<open>x\<close> are folds over \<open>0, \<dots>, height - 1\<close> and \<open>0, \<dots>, width - 1\<close>;
  they read the copy \<open>tempData\<close> made on entry and write \<open>data\<close>.
\<close>

definition kernelIdx :: "int \<Rightarrow> int \<Rightarrow> int \<Rightarrow> int \<Rightarrow> int \<Rightarrow> nat list" where
  "kernelIdx width height radius x y =
     concat (map (\<lambda>dy. concat (map (\<lambda>dx.
       (let nx = x + dx; ny = y + dy
        in if nx \<ge> 0 \<and> nx < width \<and> ny \<ge> 0 \<and> ny < height
           then [nat ((ny * width + nx) * 4)] else [])) [- radius..radius])) [- radius..radius])"

definition channelSum :: "byte list \<Rightarrow> nat list \<Rightarrow> nat \<Rightarrow> nat option" where
  "channelSum tempData idxs k =
     fold (\<lambda>idx acc. numAdd acc (taGet tempData (idx + k))) idxs (Some 0)"

definition blurPixel ::
  "byte list \<Rightarrow> int \<Rightarrow> int \<Rightarrow> int \<Rightarrow> int \<Rightarrow> int \<Rightarrow> byte list \<Rightarrow> byte list" where
  "blurPixel tempData width height radius x y data =
     (let idxs = kernelIdx width height radius x y;
          count = length idxs;
          idx = nat ((y * width + x) * 4)
      in data[idx := storeQuotient (channelSum tempData idxs 0) count,
              idx + 1 := storeQuotient (channelSum tempData idxs 1) count,
              idx + 2 := storeQuotient (channelSum tempData idxs 2) count,
              idx + 3 := storeQuotient (channelSum tempData idxs 3) count])"

definition gaussianBlur :: "byte list \<Rightarrow> int \<Rightarrow> int \<Rightarrow> int \<Rightarrow> byte list" where
  "gaussianBlur data width height radius =
     (let tempData = data
      in fold (\<lambda>y d. fold (\<lambda>x d'. blurPixel tempData width height radius x y d')
                        [0..width - 1] d)
              [0..height - 1] data)"

subsection \<open>One region, and the sequence of regions (lines 37 to 53, 81 to 179)\<close>

definition inpaintRegion ::
  "canvas \<Rightarrow> (nat \<Rightarrow> rat) \<Rightarrow> nat \<Rightarrow> int \<Rightarrow> int \<Rightarrow> int \<Rightarrow> int \<Rightarrow> dom_error + (canvas \<times> nat)" where
  "inpaintRegion c rnd n x y width height =
     (case getImageData c x y width height of
        Inl e \<Rightarrow> Inl e
      | Inr imageData \<Rightarrow>
          let data = idata imageData;
              pool = surroundingPixels c x y width height
          in if length pool = 0
             then Inr (putImageData c (imageData\<lparr>idata := fillWhite 0 data\<rparr>) x y, n)
             else (case fillBlend pool rnd n 0 data of
                     Inl e \<Rightarrow> Inl e
                   | Inr (filled, n') \<Rightarrow>
                       Inr (putImageData c
                              (imageData\<lparr>idata := gaussianBlur filled width height 2\<rparr>) x y, n')))"




section \<open>The detector (lines 248 to 286)\<close>

text \<open>
  The block origins are the values of \<^verbatim>\<open>for (let v = 0; v < bound; v += gridSize)\<close>. For an
  image of zero width or height \<^verbatim>\<open>getImageData\<close> raises and no result is produced.
\<close>

definition gridSize :: nat where
  "gridSize = 32"

function gridSteps :: "nat \<Rightarrow> nat \<Rightarrow> nat list" where
  "gridSteps v bound = (if v < bound then v # gridSteps (v + gridSize) bound else [])"
  by pat_completeness auto
termination
  by (relation "measure (\<lambda>(v, bound). bound - v)") (auto simp: gridSize_def)

text \<open>
  The body of the two inner loops for one pixel. The thresholds 200 and 50 on
  \<^verbatim>\<open>(R + G + B) / 3\<close> and the factors 0.3 and 0.5 are compared as rationals: on sums of
  three bytes and on block sizes up to 1024 the double comparison has the same outcome.
\<close>

definition pixelStats :: "byte list \<Rightarrow> nat \<Rightarrow> nat \<times> nat \<times> nat \<Rightarrow> nat \<times> nat \<times> nat" where
  "pixelStats data idx acc =
     (case acc of (transparentPixels, brightPixels, totalPixels) \<Rightarrow>
        let alpha = taGet data (idx + 3);
            brightness =
              map_option (\<lambda>v. (of_nat v :: rat) / 3)
                (numAdd (numAdd (taGet data idx) (taGet data (idx + 1))) (taGet data (idx + 2)))
        in ((if (case alpha of None \<Rightarrow> False | Some a \<Rightarrow> a < 200)
             then transparentPixels + 1 else transparentPixels),
            (if (case brightness of None \<Rightarrow> False | Some v \<Rightarrow> v > 200 \<or> v < 50)
             then brightPixels + 1 else brightPixels),
            totalPixels + 1))"

definition blockStats :: "byte list \<Rightarrow> nat \<Rightarrow> nat \<Rightarrow> nat \<Rightarrow> nat \<Rightarrow> nat \<times> nat \<times> nat" where
  "blockStats data W H x y =
     fold (\<lambda>dy acc. fold (\<lambda>dx acc'. pixelStats data (((y + dy) * W + (x + dx)) * 4) acc')
                       [0..<min gridSize (W - x)] acc)
          [0..<min gridSize (H - y)] (0, 0, 0)"

definition blockFlagged :: "nat \<times> nat \<times> nat \<Rightarrow> bool" where
  "blockFlagged stats =
     (case stats of (transparentPixels, brightPixels, totalPixels) \<Rightarrow>
        (of_nat transparentPixels :: rat) > of_nat totalPixels * (3 / 10)
        \<or> (of_nat brightPixels :: rat) > of_nat totalPixels * (1 / 2))"

definition blockSelection :: "nat \<Rightarrow> nat \<Rightarrow> nat \<Rightarrow> nat \<Rightarrow> WatermarkSelection" where
  "blockSelection W H x y =
     \<lparr>sel_x = of_nat x / of_nat W,
      sel_y = of_nat y / of_nat H,
      sel_width = of_nat (min gridSize (W - x)) / of_nat W,
      sel_height = of_nat (min gridSize (H - y)) / of_nat H,
      sel_type = Auto\<rparr>"

definition detectWatermarks :: "canvas \<Rightarrow> dom_error + WatermarkSelection list" where
  "detectWatermarks img =
     (let W = cwidth img; H = cheight img
      in case getImageData img 0 0 (int W) (int H) of
           Inl e \<Rightarrow> Inl e
         | Inr imageData \<Rightarrow>
             let data = idata imageData
             in Inr (concat (map (\<lambda>y. concat (map (\<lambda>x.
                       if blockFlagged (blockStats data W H x y)
                       then [blockSelection W H x y] else [])
                     (gridSteps 0 W))) (gridSteps 0 H))))"

section \<open>Notions of the specification, auxiliary definitions and example inputs\<close>

text \<open>The bytes \<open>getImageData\<close> returns for a block of positive width and height.\<close>

definition blockBytes :: "canvas \<Rightarrow> int \<Rightarrow> int \<Rightarrow> nat \<Rightarrow> nat \<Rightarrow> byte list" where
  "blockBytes c x0 y0 w h =
     concat (map (\<lambda>j. concat (map (\<lambda>i. pixelBytes (sourcePixel c (x0 + int i) (y0 + int j))) [0..<w])) [0..<h])"

text \<open>
  The border ring of thickness \<open>r\<close> around a region, in the words of the specification:
  the positions of the canvas inside the region's rectangle grown by \<open>r\<close> on every side
  (corners included) and outside the rectangle itself.
\<close>

definition inRing :: "canvas \<Rightarrow> int \<Rightarrow> int \<Rightarrow> int \<Rightarrow> int \<Rightarrow> int \<Rightarrow> int \<Rightarrow> int \<Rightarrow> bool" where
  "inRing c x y width height r px py \<longleftrightarrow>
     inCanvas c px py
     \<and> (x - r \<le> px \<and> px < x + width + r \<and> y - r \<le> py \<and> py < y + height + r)
     \<and> \<not> (x \<le> px \<and> px < x + width \<and> y \<le> py \<and> py < y + height)"

text \<open>The positions one sampling loop accepts, in loop order.\<close>

definition stripPositions :: "canvas \<Rightarrow> int \<Rightarrow> int \<Rightarrow> int list \<Rightarrow> int list \<Rightarrow> (int \<times> int) list" where
  "stripPositions c x y ivals jvals =
     map (\<lambda>(i, j). (x + i, y + j))
       (filter (\<lambda>(i, j). inCanvas c (x + i) (y + j)) (List.product ivals jvals))"

text \<open>The positions the four sampling loops accept, in the order of the pool.\<close>

definition ringPositions :: "canvas \<Rightarrow> int \<Rightarrow> int \<Rightarrow> int \<Rightarrow> int \<Rightarrow> (int \<times> int) list" where
  "ringPositions c x y width height =
     (let sr = sampleRadius width height
      in stripPositions c x y [- sr..width + sr - 1] [- sr..- 1]
         @ stripPositions c x y [- sr..width + sr - 1] [height..height + sr - 1]
         @ stripPositions c x y [- sr..- 1] [0..height - 1]
         @ stripPositions c x y [width..width + sr - 1] [0..height - 1])"

text \<open>
  The values of channel \<open>ch\<close> that a snapshot of a \<open>w\<close> by \<open>h\<close> block holds at the
  neighbours of pixel \<open>(x, y)\<close> inside the block and inside the 5 by 5 kernel.
\<close>

definition neighbourValues :: "byte list \<Rightarrow> nat \<Rightarrow> nat \<Rightarrow> nat \<Rightarrow> nat \<Rightarrow> nat \<Rightarrow> nat list" where
  "neighbourValues snapshot w h x y ch =
     concat (map (\<lambda>ny. concat (map (\<lambda>nx.
       if \<bar>int nx - int x\<bar> \<le> 2 \<and> \<bar>int ny - int y\<bar> \<le> 2
       then [unat (snapshot ! (4 * (ny * w + nx) + ch))] else []) [0..<w])) [0..<h])"




text \<open>
  The statistics of a detector block in the words of the specification: the pixels the
  block with origin \<open>(x, y)\<close> contains (the block is clipped to the image), the number of
  them with alpha below 200, the number of them with luminance \<open>(R + G + B) / 3\<close> above
  200 or below 50, and their number.
\<close>

definition blockPixels :: "canvas \<Rightarrow> nat \<Rightarrow> nat \<Rightarrow> rgba list" where
  "blockPixels img x y =
     concat (map (\<lambda>py. map (\<lambda>px. bitmap img (int px) (int py))
                          [x..<min (x + gridSize) (cwidth img)])
                 [y..<min (y + gridSize) (cheight img)])"

definition isTransparent :: "rgba \<Rightarrow> bool" where
  "isTransparent p = (case p of (r, g, b, a) \<Rightarrow> unat a < 200)"

definition luminance :: "rgba \<Rightarrow> rat" where
  "luminance p = (case p of (r, g, b, a) \<Rightarrow> of_nat (unat r + unat g + unat b) / 3)"

definition isExtreme :: "rgba \<Rightarrow> bool" where
  "isExtreme p \<longleftrightarrow> luminance p > 200 \<or> luminance p < 50"

definition transparentCount :: "canvas \<Rightarrow> nat \<Rightarrow> nat \<Rightarrow> nat" where
  "transparentCount img x y = length (filter isTransparent (blockPixels img x y))"

definition extremeCount :: "canvas \<Rightarrow> nat \<Rightarrow> nat \<Rightarrow> nat" where
  "extremeCount img x y = length (filter isExtreme (blockPixels img x y))"

definition blockTotal :: "canvas \<Rightarrow> nat \<Rightarrow> nat \<Rightarrow> nat" where
  "blockTotal img x y = length (blockPixels img x y)"

text \<open>The effect of one pixel on the three counters of the detector.\<close>

definition pixelStep :: "rgba \<Rightarrow> nat \<times> nat \<times> nat \<Rightarrow> nat \<times> nat \<times> nat" where
  "pixelStep p acc =
     (case acc of (t, b, n) \<Rightarrow>
        ((if isTransparent p then t + 1 else t), (if isExtreme p then b + 1 else b), n + 1))"



text \<open>An opaque mid-gray image.\<close>

definition grayCanvas :: "nat \<Rightarrow> nat \<Rightarrow> canvas" where
  "grayCanvas w h = \<lparr>cwidth = w, cheight = h, bitmap = (\<lambda>px py. (128, 128, 128, 255))\<rparr>"


text \<open>
  A 32 by 32 mid-gray image whose first \<open>k\<close> pixels, in row-major order, have alpha 150
  and whose other pixels are opaque.
\<close>

definition boundaryImage :: "nat \<Rightarrow> canvas" where
  "boundaryImage k =
     \<lparr>cwidth = 32, cheight = 32,
      bitmap = (\<lambda>px py. if py * 32 + px < int k then (128, 128, 128, 150) else (128, 128, 128, 255))\<rparr>"

text \<open>
  A random source that always returns 0, one that cycles through the sevenths, a sink
  that records the values it receives, and the test for a given alpha.
\<close>

definition zeroDraws :: "nat \<Rightarrow> rat" where
  "zeroDraws k = 0"



definition alphaIs :: "byte \<Rightarrow> rgba \<Rightarrow> bool" where
  "alphaIs v p = (case p of (r, g, b, a) \<Rightarrow> a = v)"

declare fillWhite.simps [simp del]
declare fillBlend.simps [simp del]
declare gridSteps.simps [simp del]

section \<open>Facts about image data and the white fill\<close>

lemma nth_concat_chunks:
  "(\<And>v. v \<in> set xs \<Longrightarrow> length (f v) = m) \<Longrightarrow> i < length xs \<Longrightarrow> k < m
     \<Longrightarrow> concat (map f xs) ! (i * m + k) = f (xs ! i) ! k"
proof (induction xs arbitrary: i)
  case Nil
  then show ?case by simp
next
  case (Cons a xs)
  show ?case
  proof (cases i)
    case 0
    with Cons.prems show ?thesis by (simp add: nth_append)
  next
    case (Suc i')
    with Cons.prems have "concat (map f xs) ! (i' * m + k) = f (xs ! i') ! k"
      by (intro Cons.IH) auto
    moreover have "length (f a) = m" using Cons.prems by simp
    ultimately show ?thesis using Suc by (simp add: nth_append)
  qed
qed

lemma length_concat_chunks:
  "(\<And>v. v \<in> set xs \<Longrightarrow> length (f v) = m) \<Longrightarrow> length (concat (map f xs)) = length xs * m"
  by (induction xs) auto

lemma length_pixelBytes [simp]: "length (pixelBytes p) = 4"
  by (cases p) (simp add: pixelBytes_def)

lemma length_rowBytes:
  "length (concat (map (\<lambda>i. pixelBytes (sourcePixel c (x0 + int i) yy)) [0..<w])) = w * 4"
  using length_concat_chunks [of "[0..<w]" "\<lambda>i. pixelBytes (sourcePixel c (x0 + int i) yy)" 4]
  by simp

lemma length_blockBytes: "length (blockBytes c x0 y0 w h) = 4 * (w * h)"
  unfolding blockBytes_def
  using length_concat_chunks [of "[0..<h]"
      "\<lambda>j. concat (map (\<lambda>i. pixelBytes (sourcePixel c (x0 + int i) (y0 + int j))) [0..<w])" "w * 4"]
  by (simp add: length_rowBytes)

lemma nth_blockBytes:
  assumes "i < w" "j < h" "k < 4"
  shows "blockBytes c x0 y0 w h ! (4 * (j * w + i) + k)
           = pixelBytes (sourcePixel c (x0 + int i) (y0 + int j)) ! k"
proof -
  let ?row = "\<lambda>j. concat (map (\<lambda>i. pixelBytes (sourcePixel c (x0 + int i) (y0 + int j))) [0..<w])"
  have idx: "4 * (j * w + i) + k = j * (w * 4) + (i * 4 + k)" by (simp add: algebra_simps)
  have lt: "i * 4 + k < w * 4" using assms by simp
  have "blockBytes c x0 y0 w h ! (j * (w * 4) + (i * 4 + k)) = ?row ([0..<h] ! j) ! (i * 4 + k)"
    unfolding blockBytes_def
    using nth_concat_chunks [of "[0..<h]" ?row "w * 4" j "i * 4 + k"] assms lt
    by (simp add: length_rowBytes)
  also have "\<dots> = ?row j ! (i * 4 + k)" using assms by simp
  also have "\<dots> = pixelBytes (sourcePixel c (x0 + int ([0..<w] ! i)) (y0 + int j)) ! k"
    using nth_concat_chunks [of "[0..<w]" "\<lambda>i. pixelBytes (sourcePixel c (x0 + int i) (y0 + int j))" 4 i k] assms
    by simp
  finally have "blockBytes c x0 y0 w h ! (j * (w * 4) + (i * 4 + k))
      = pixelBytes (sourcePixel c (x0 + int i) (y0 + int j)) ! k"
    using assms by simp
  then show ?thesis by (simp only: idx)
qed

lemma getImageData_pos:
  "0 < w \<Longrightarrow> 0 < h \<Longrightarrow>
     getImageData c x y w h = Inr \<lparr>iwidth = nat w, iheight = nat h, idata = blockBytes c x y (nat w) (nat h)\<rparr>"
  by (simp add: getImageData_def blockBytes_def Let_def)


lemma dataPixel_blockBytes:
  assumes "i < w" "j < h"
  shows "dataPixel (blockBytes c x0 y0 w h) (j * w + i) = sourcePixel c (x0 + int i) (y0 + int j)"
proof -
  obtain r g b a where p: "sourcePixel c (x0 + int i) (y0 + int j) = (r, g, b, a)"
    by (cases "sourcePixel c (x0 + int i) (y0 + int j)") auto
  have "\<And>k. k < 4 \<Longrightarrow> blockBytes c x0 y0 w h ! (4 * (j * w + i) + k) = [r, g, b, a] ! k"
    using nth_blockBytes [OF assms] p by (simp add: pixelBytes_def)
  from this [of 0] this [of 1] this [of 2] this [of 3] show ?thesis
    by (simp add: dataPixel_def p)
qed

lemma readPixel_eq: "readPixel c px py = sourcePixel c px py"
proof -
  have "getImageData c px py 1 1 = Inr \<lparr>iwidth = 1, iheight = 1, idata = blockBytes c px py 1 1\<rparr>"
    using getImageData_pos [of 1 1 c px py] by simp
  moreover have "dataPixel (blockBytes c px py 1 1) 0 = sourcePixel c px py"
    using dataPixel_blockBytes [of 0 1 0 1 c px py] by simp
  ultimately show ?thesis by (simp add: readPixel_def)
qed

lemma nth_write4:
  "k < length d \<Longrightarrow>
     d[i := a0, i + 1 := a1, i + 2 := a2, i + 3 := a3] ! k =
       (if k = i + 3 then a3 else if k = i + 2 then a2 else if k = i + 1 then a1
        else if k = i then a0 else d ! k)"
  by (simp add: nth_list_update)

lemma length_fillWhite [simp]: "length (fillWhite i data) = length data"
proof (induction i data rule: fillWhite.induct)
  case (1 i data)
  show ?case
  proof (cases "i < length data")
    case True
    then show ?thesis using 1 by (subst fillWhite.simps) simp
  next
    case False
    then show ?thesis by (subst fillWhite.simps) simp
  qed
qed

lemma nth_fillWhite:
  "k < length data \<Longrightarrow> fillWhite i data ! k = (if i \<le> k then 255 else data ! k)"
proof (induction i data rule: fillWhite.induct)
  case (1 i data)
  show ?case
  proof (cases "i < length data")
    case True
    let ?d = "data[i := 255, i + 1 := 255, i + 2 := 255, i + 3 := 255]"
    have "fillWhite i data ! k = fillWhite (i + 4) ?d ! k"
      using True by (subst fillWhite.simps) simp
    also have "\<dots> = (if i + 4 \<le> k then 255 else ?d ! k)"
      using 1 True by simp
    also have "\<dots> = (if i \<le> k then 255 else data ! k)"
      using "1.prems" by (simp only: nth_write4) auto
    finally show ?thesis .
  next
    case False
    then show ?thesis using "1.prems" by (subst fillWhite.simps) simp
  qed
qed

lemma dataPixel_fillWhite:
  "4 * p + 3 < length data \<Longrightarrow> dataPixel (fillWhite 0 data) p = (255, 255, 255, 255)"
  by (simp add: dataPixel_def nth_fillWhite)

lemma putImageData_dims [simp]:
  "cwidth (putImageData c img dx dy) = cwidth c" "cheight (putImageData c img dx dy) = cheight c"
  by (simp_all add: putImageData_def)


lemma putImageData_inside:
  "inCanvas c px py \<Longrightarrow> dx \<le> px \<Longrightarrow> px < dx + int (iwidth img) \<Longrightarrow> dy \<le> py
     \<Longrightarrow> py < dy + int (iheight img)
     \<Longrightarrow> bitmap (putImageData c img dx dy) px py
           = dataPixel (idata img) (nat (py - dy) * iwidth img + nat (px - dx))"
  by (simp add: putImageData_def)

lemma sampleRadius_div: "sampleRadius width height = min 20 (min width height div 4)"
proof -
  have "\<lfloor>(of_int (min width height) :: rat) / of_int 4\<rfloor> = min width height div 4"
    by (rule floor_divide_of_int_eq)
  then show ?thesis by (simp add: sampleRadius_def)
qed

lemma sampleStrip_Nil [simp]:
  "sampleStrip c x y [] jvals = []" "sampleStrip c x y ivals [] = []"
  by (simp_all add: sampleStrip_def)

lemma surroundingPixels_radius0:
  "sampleRadius width height = 0 \<Longrightarrow> surroundingPixels c x y width height = []"
  by (simp add: surroundingPixels_def)



lemma inpaintRegion_empty_pool:
  assumes "0 < width" "0 < height" "surroundingPixels c x y width height = []"
  shows "inpaintRegion c rnd n x y width height =
           Inr (putImageData c \<lparr>iwidth = nat width, iheight = nat height,
                  idata = fillWhite 0 (blockBytes c x y (nat width) (nat height))\<rparr> x y, n)"
  using assms by (simp add: inpaintRegion_def getImageData_pos)

lemma pixel_index_less:
  fixes i j w h :: nat
  assumes "i < w" "j < h"
  shows "j * w + i < w * h"
proof -
  have "j * w + i < j * w + w" using assms by simp
  also have "\<dots> = (j + 1) * w" by simp
  also have "\<dots> \<le> h * w"
  proof (rule mult_le_mono1)
    show "j + 1 \<le> h" using assms by simp
  qed
  finally show ?thesis by (simp add: mult.commute)
qed

lemma white_inside:
  assumes "0 < width" "0 < height"
    and "x \<le> px" "px < x + width" "y \<le> py" "py < y + height" "inCanvas c px py"
  shows "bitmap (putImageData c \<lparr>iwidth = nat width, iheight = nat height,
                  idata = fillWhite 0 (blockBytes c x y (nat width) (nat height))\<rparr> x y) px py
           = (255, 255, 255, 255)"
proof -
  let ?w = "nat width" and ?h = "nat height"
  let ?p = "nat (py - y) * ?w + nat (px - x)"
  have i: "nat (px - x) < ?w" and j: "nat (py - y) < ?h" using assms by auto
  have "?p < ?w * ?h" using i j by (rule pixel_index_less)
  then have "4 * ?p + 3 < length (blockBytes c x y ?w ?h)"
    by (simp add: length_blockBytes)
  then have "dataPixel (fillWhite 0 (blockBytes c x y ?w ?h)) ?p = (255, 255, 255, 255)"
    by (rule dataPixel_fillWhite)
  then show ?thesis using assms by (simp add: putImageData_inside)
qed

section \<open>Degenerate, enclosed and small regions\<close>



text \<open>
  Claim C3. When no pixel was collected around the region, the inpainter completes,
  draws no random number, and every pixel of the canvas inside the region is opaque
  white afterwards.
\<close>

theorem inpaint_empty_pool_white:
  assumes "surroundingPixels c x y width height = []"
    and "x \<le> px" "px < x + width" "y \<le> py" "py < y + height" "inCanvas c px py"
  shows "\<exists>c'. inpaintRegion c rnd n x y width height = Inr (c', n)
               \<and> bitmap c' px py = (255, 255, 255, 255)"
proof -
  have pos: "0 < width" "0 < height" using assms by auto
  show ?thesis
    using inpaintRegion_empty_pool [OF pos assms(1)] white_inside [OF pos assms(2-6)]
    by simp
qed

theorem inpaint_empty_pool_white_witness:
  "surroundingPixels (grayCanvas 1 1) 0 0 1 1 = []
   \<and> (0::int) \<le> 0 \<and> (0::int) < 0 + 1 \<and> inCanvas (grayCanvas 1 1) 0 0
   \<and> (\<exists>c'. inpaintRegion (grayCanvas 1 1) zeroDraws 0 0 0 1 1 = Inr (c', 0)
          \<and> bitmap c' 0 0 = (255, 255, 255, 255))"
proof -
  have e: "surroundingPixels (grayCanvas 1 1) 0 0 1 1 = []"
    by (simp add: surroundingPixels_def sampleRadius_def)
  have i: "inCanvas (grayCanvas 1 1) 0 0"
    by (simp add: inCanvas_def grayCanvas_def)
  show ?thesis
    using inpaint_empty_pool_white [of "grayCanvas 1 1" 0 0 1 1 0 0 zeroDraws 0] e i
    by simp
qed

text \<open>
  Claim C10. For a region of positive width and height, one of them below 4 pixels, the
  sampling radius is 0, nothing is collected, and the whole region becomes opaque white
  whatever surrounds it.
\<close>

theorem inpaint_small_region_white:
  assumes "0 < width" "0 < height" "width < 4 \<or> height < 4"
  shows "sampleRadius width height = 0
         \<and> surroundingPixels c x y width height = []
         \<and> (\<exists>c'. inpaintRegion c rnd n x y width height = Inr (c', n)
               \<and> (\<forall>px py. x \<le> px \<and> px < x + width \<and> y \<le> py \<and> py < y + height
                      \<and> inCanvas c px py \<longrightarrow> bitmap c' px py = (255, 255, 255, 255)))"
proof -
  have r: "sampleRadius width height = 0"
    using assms by (auto simp: sampleRadius_div min_def)
  then have e: "surroundingPixels c x y width height = []"
    by (rule surroundingPixels_radius0)
  show ?thesis
    using r e inpaintRegion_empty_pool [OF assms(1,2) e] white_inside [OF assms(1,2)]
    by auto
qed

theorem inpaint_small_region_white_witness:
  "(0::int) < 3 \<and> (0::int) < 8 \<and> ((3::int) < 4 \<or> (8::int) < 4)
   \<and> sampleRadius 3 8 = 0
   \<and> surroundingPixels (grayCanvas 16 16) 4 4 3 8 = []
   \<and> (\<exists>c'. inpaintRegion (grayCanvas 16 16) zeroDraws 0 4 4 3 8 = Inr (c', 0)
          \<and> bitmap c' 5 7 = (255, 255, 255, 255))"
proof -
  have "\<exists>c'. inpaintRegion (grayCanvas 16 16) zeroDraws 0 4 4 3 8 = Inr (c', 0)
          \<and> (\<forall>px py. 4 \<le> px \<and> px < 4 + 3 \<and> 4 \<le> py \<and> py < 4 + 8
                 \<and> inCanvas (grayCanvas 16 16) px py \<longrightarrow> bitmap c' px py = (255, 255, 255, 255))"
    using inpaint_small_region_white [of 3 8 "grayCanvas 16 16" 4 4 zeroDraws 0] by simp
  then obtain c' where
    "inpaintRegion (grayCanvas 16 16) zeroDraws 0 4 4 3 8 = Inr (c', 0)"
    "4 \<le> (5::int) \<and> (5::int) < 4 + 3 \<and> 4 \<le> (7::int) \<and> (7::int) < 4 + 8
       \<and> inCanvas (grayCanvas 16 16) 5 7 \<longrightarrow> bitmap c' 5 7 = (255, 255, 255, 255)"
    by blast
  moreover have "inCanvas (grayCanvas 16 16) 5 7" by (simp add: inCanvas_def grayCanvas_def)
  ultimately show ?thesis
    using inpaint_small_region_white [of 3 8 "grayCanvas 16 16" 4 4 zeroDraws 0] by auto
qed

section \<open>The frame of the inpainter\<close>




section \<open>The context pool\<close>

lemma concat_map_if:
  "concat (map (\<lambda>j. if P j then [f j] else []) js) = map f (filter P js)"
  by (induction js) auto

lemma concat_map_product:
  "concat (map (\<lambda>i. map (f i) (filter (P i) js)) ivals) =
     map (\<lambda>(i, j). f i j) (filter (\<lambda>(i, j). P i j) (List.product ivals js))"
proof (induction ivals)
  case Nil
  then show ?case by simp
next
  case (Cons i ivals)
  have "map (\<lambda>(i, j). f i j) (filter (\<lambda>(i, j). P i j) (map (Pair i) js)) = map (f i) (filter (P i) js)"
    by (induction js) auto
  with Cons show ?case by simp
qed

lemma sampleStrip_positions:
  "sampleStrip c x y ivals jvals = map (\<lambda>(px, py). bitmap c px py) (stripPositions c x y ivals jvals)"
proof -
  have "sampleStrip c x y ivals jvals =
          concat (map (\<lambda>i. map (\<lambda>j. bitmap c (x + i) (y + j))
                    (filter (\<lambda>j. inCanvas c (x + i) (y + j)) jvals)) ivals)"
  proof -
    have "\<And>i j. (let px = x + i; py = y + j
                 in if px \<ge> 0 \<and> px < int (cwidth c) \<and> py \<ge> 0 \<and> py < int (cheight c)
                    then [readPixel c px py] else [])
              = (if inCanvas c (x + i) (y + j) then [bitmap c (x + i) (y + j)] else [])"
      by (simp add: Let_def readPixel_eq sourcePixel_def inCanvas_def)
    then show ?thesis
      by (simp add: sampleStrip_def concat_map_if)
  qed
  also have "\<dots> = map (\<lambda>(i, j). bitmap c (x + i) (y + j))
                     (filter (\<lambda>(i, j). inCanvas c (x + i) (y + j)) (List.product ivals jvals))"
    by (rule concat_map_product)
  also have "\<dots> = map (\<lambda>(px, py). bitmap c px py) (stripPositions c x y ivals jvals)"
    by (simp add: stripPositions_def comp_def case_prod_unfold)
  finally show ?thesis .
qed

lemma set_stripPositions:
  "(px, py) \<in> set (stripPositions c x y [a..b] [a'..b']) \<longleftrightarrow>
     inCanvas c px py \<and> a \<le> px - x \<and> px - x \<le> b \<and> a' \<le> py - y \<and> py - y \<le> b'"
proof -
  have "(px, py) \<in> set (stripPositions c x y [a..b] [a'..b']) \<longleftrightarrow>
          (\<exists>i j. a \<le> i \<and> i \<le> b \<and> a' \<le> j \<and> j \<le> b' \<and> inCanvas c (x + i) (y + j)
                 \<and> px = x + i \<and> py = y + j)"
    by (auto simp: stripPositions_def)
  also have "\<dots> \<longleftrightarrow> inCanvas c px py \<and> a \<le> px - x \<and> px - x \<le> b \<and> a' \<le> py - y \<and> py - y \<le> b'"
  proof
    assume "\<exists>i j. a \<le> i \<and> i \<le> b \<and> a' \<le> j \<and> j \<le> b' \<and> inCanvas c (x + i) (y + j)
                 \<and> px = x + i \<and> py = y + j"
    then show "inCanvas c px py \<and> a \<le> px - x \<and> px - x \<le> b \<and> a' \<le> py - y \<and> py - y \<le> b'"
      by auto
  next
    assume h: "inCanvas c px py \<and> a \<le> px - x \<and> px - x \<le> b \<and> a' \<le> py - y \<and> py - y \<le> b'"
    show "\<exists>i j. a \<le> i \<and> i \<le> b \<and> a' \<le> j \<and> j \<le> b' \<and> inCanvas c (x + i) (y + j)
                 \<and> px = x + i \<and> py = y + j"
      by (rule exI [of _ "px - x"], rule exI [of _ "py - y"]) (use h in simp)
  qed
  finally show ?thesis .
qed

lemma distinct_stripPositions: "distinct (stripPositions c x y [a..b] [a'..b'])"
proof -
  have "inj_on (\<lambda>(i, j). (x + i, y + j)) A" for A :: "(int \<times> int) set"
    by (auto simp: inj_on_def)
  then show ?thesis
    unfolding stripPositions_def
    by (intro iffD2 [OF distinct_map] conjI distinct_filter distinct_product) simp_all
qed

lemma sampleRadius_nonneg: "0 \<le> width \<Longrightarrow> 0 \<le> height \<Longrightarrow> 0 \<le> sampleRadius width height"
  by (simp add: sampleRadius_div)

lemma surroundingPixels_positions:
  "surroundingPixels c x y width height =
     map (\<lambda>(px, py). bitmap c px py) (ringPositions c x y width height)"
  by (simp add: surroundingPixels_def ringPositions_def Let_def sampleStrip_positions)

lemma disjoint_stripPositions:
  assumes "b < a2 \<or> b2 < a \<or> b' < a2' \<or> b2' < a'"
  shows "set (stripPositions c x y [a..b] [a'..b']) \<inter> set (stripPositions c x y [a2..b2] [a2'..b2']) = {}"
proof -
  have "\<not> ((px, py) \<in> set (stripPositions c x y [a..b] [a'..b'])
            \<and> (px, py) \<in> set (stripPositions c x y [a2..b2] [a2'..b2']))" for px py
    using assms unfolding set_stripPositions by linarith
  then show ?thesis by auto
qed

lemma set_ringPositions:
  assumes "0 \<le> width" "0 \<le> height"
  shows "(px, py) \<in> set (ringPositions c x y width height) \<longleftrightarrow>
           inRing c x y width height (sampleRadius width height) px py"
proof -
  define sr where "sr = sampleRadius width height"
  have r: "0 \<le> sr" unfolding sr_def using assms by (rule sampleRadius_nonneg)
  have "(px, py) \<in> set (ringPositions c x y width height) \<longleftrightarrow>
          inCanvas c px py \<and>
          ((- sr \<le> px - x \<and> px - x \<le> width + sr - 1 \<and> - sr \<le> py - y \<and> py - y \<le> - 1)
           \<or> (- sr \<le> px - x \<and> px - x \<le> width + sr - 1 \<and> height \<le> py - y \<and> py - y \<le> height + sr - 1)
           \<or> (- sr \<le> px - x \<and> px - x \<le> - 1 \<and> 0 \<le> py - y \<and> py - y \<le> height - 1)
           \<or> (width \<le> px - x \<and> px - x \<le> width + sr - 1 \<and> 0 \<le> py - y \<and> py - y \<le> height - 1))"
    unfolding ringPositions_def Let_def sr_def [symmetric] set_append Un_iff set_stripPositions
    by blast
  also have "\<dots> \<longleftrightarrow> inRing c x y width height sr px py"
    unfolding inRing_def using r assms by (cases "inCanvas c px py") (simp, linarith, simp)
  finally show ?thesis unfolding sr_def .
qed

lemma distinct_ringPositions:
  assumes "0 \<le> width" "0 \<le> height"
  shows "distinct (ringPositions c x y width height)"
proof -
  define sr where "sr = sampleRadius width height"
  have r: "0 \<le> sr" unfolding sr_def using assms by (rule sampleRadius_nonneg)
  let ?T = "stripPositions c x y [- sr..width + sr - 1] [- sr..- 1]"
  let ?B = "stripPositions c x y [- sr..width + sr - 1] [height..height + sr - 1]"
  let ?L = "stripPositions c x y [- sr..- 1] [0..height - 1]"
  let ?R = "stripPositions c x y [width..width + sr - 1] [0..height - 1]"
  have tb: "set ?T \<inter> set ?B = {}" using assms by (intro disjoint_stripPositions) simp
  have tl: "set ?T \<inter> set ?L = {}" by (intro disjoint_stripPositions) simp
  have tr: "set ?T \<inter> set ?R = {}" by (intro disjoint_stripPositions) simp
  have bl: "set ?B \<inter> set ?L = {}" by (intro disjoint_stripPositions) simp
  have br: "set ?B \<inter> set ?R = {}" by (intro disjoint_stripPositions) simp
  have lr: "set ?L \<inter> set ?R = {}" using assms by (intro disjoint_stripPositions) simp
  have "distinct (?T @ ?B @ ?L @ ?R)"
    using tb tl tr bl br lr
    by (simp add: distinct_stripPositions Int_Un_distrib Int_Un_distrib2)
  then show ?thesis by (simp add: ringPositions_def Let_def sr_def)
qed

text \<open>
  Claim C6. The sampling radius is \<open>min(20, floor(min(width, height) / 4))\<close>, and the
  context pool holds the pixels of exactly the canvas positions of the border ring of
  that thickness around the region, corners included. The top and bottom strips carry
  the corners and the left and right strips span the region's rows only, so every
  position of the ring is collected once.
\<close>

theorem context_pool_ring:
  assumes "0 \<le> width" "0 \<le> height"
  shows "\<exists>ps. surroundingPixels c x y width height = map (\<lambda>(px, py). bitmap c px py) ps
            \<and> distinct ps
            \<and> (\<forall>px py. (px, py) \<in> set ps \<longleftrightarrow>
                  inRing c x y width height
                    (min 20 \<lfloor>(of_int (min width height) :: rat) / 4\<rfloor>) px py)"
proof -
  have "\<forall>px py. (px, py) \<in> set (ringPositions c x y width height) \<longleftrightarrow>
          inRing c x y width height (min 20 \<lfloor>(of_int (min width height) :: rat) / 4\<rfloor>) px py"
    using set_ringPositions [OF assms] by (simp add: sampleRadius_def)
  then show ?thesis
    using surroundingPixels_positions distinct_ringPositions [OF assms] by blast
qed

theorem context_pool_ring_witness:
  "(0::int) \<le> 8 \<and> (0::int) \<le> 12
   \<and> (\<exists>ps. surroundingPixels (grayCanvas 16 16) 4 2 8 12 = map (\<lambda>(px, py). bitmap (grayCanvas 16 16) px py) ps
          \<and> distinct ps
          \<and> (\<forall>px py. (px, py) \<in> set ps \<longleftrightarrow>
                inRing (grayCanvas 16 16) 4 2 8 12 (min 20 \<lfloor>(of_int (min 8 12) :: rat) / 4\<rfloor>) px py))"
  using context_pool_ring [of 8 12 "grayCanvas 16 16" 4 2] by simp

section \<open>The blur\<close>

lemma unat_byte_of_int: "0 \<le> k \<Longrightarrow> k \<le> 255 \<Longrightarrow> unat (of_int k :: byte) = nat k"
proof -
  assume a: "0 \<le> k" "k \<le> 255"
  then have "take_bit 8 k = k" by (simp add: take_bit_int_eq_self)
  then show ?thesis by (simp add: unsigned_of_int)
qed

lemma unat_byte_le: "unat (b :: byte) \<le> 255"
  using unsigned_less [of b, where 'a = nat] by simp

lemma toUint8Clamp_between:
  assumes "of_nat lo \<le> v" "v \<le> of_nat hi" "hi \<le> 255"
  shows "lo \<le> unat (toUint8Clamp v) \<and> unat (toUint8Clamp v) \<le> hi"
proof -
  define f where "f = \<lfloor>v\<rfloor>"
  have v0: "0 \<le> v" using assms(1) of_nat_0_le_iff [of lo, where 'a = rat] by linarith
  have v255: "v \<le> 255"
  proof -
    have "(of_nat hi :: rat) \<le> of_nat 255" using assms(3) by (simp only: of_nat_le_iff)
    then show ?thesis using assms(2) by simp
  qed
  have cl: "min (max v 0) 255 = v" using v0 v255 by simp
  have flo: "int lo \<le> f" unfolding f_def using assms(1) by (simp add: le_floor_iff)
  have fhi: "f \<le> int hi" unfolding f_def using assms(2) by (simp add: floor_le_iff)
  have f0: "0 \<le> f" using flo by simp
  have f255: "f \<le> 255" using fhi assms(3) by simp
  have up: "f + 1 \<le> int hi" if "of_int f < v"
  proof -
    have "of_int f < (of_int (int hi) :: rat)" using that assms(2) by simp
    then have "f < int hi" by (simp only: of_int_less_iff)
    then show ?thesis by simp
  qed
  have res: "toUint8Clamp v = of_int f \<or> (of_int f < v \<and> toUint8Clamp v = of_int (f + 1))"
  proof -
    have "v < of_int f + 1 / 2 \<or> of_int f < v" by linarith
    then show ?thesis
      unfolding toUint8Clamp_def cl Let_def f_def [symmetric] by auto
  qed
  show ?thesis
  proof (rule disjE [OF res])
    assume "toUint8Clamp v = of_int f"
    then have "unat (toUint8Clamp v) = nat f" using f0 f255 by (simp add: unat_byte_of_int)
    then show ?thesis using flo fhi by linarith
  next
    assume a: "of_int f < v \<and> toUint8Clamp v = of_int (f + 1)"
    then have le: "f + 1 \<le> int hi" using up by simp
    then have "f + 1 \<le> 255" using assms(3) by simp
    moreover have "0 \<le> f + 1" using f0 by simp
    ultimately have "unat (of_int (f + 1) :: byte) = nat (f + 1)" by (rule unat_byte_of_int [rotated])
    then have "unat (toUint8Clamp v) = nat (f + 1)" using a by (simp only:)
    then show ?thesis using flo le by linarith
  qed
qed

lemma sum_list_bounds:
  fixes vs :: "nat list"
  assumes "\<And>v. v \<in> set vs \<Longrightarrow> lo \<le> v \<and> v \<le> hi"
  shows "lo * length vs \<le> sum_list vs \<and> sum_list vs \<le> hi * length vs"
  using assms
proof (induction vs)
  case Nil
  then show ?case by simp
next
  case (Cons a vs)
  then have "lo \<le> a" "a \<le> hi" "lo * length vs \<le> sum_list vs" "sum_list vs \<le> hi * length vs"
    by auto
  then show ?case by simp
qed

lemma mean_between:
  fixes vs :: "nat list"
  assumes "vs \<noteq> []" "\<And>v. v \<in> set vs \<Longrightarrow> lo \<le> v \<and> v \<le> hi" "hi \<le> 255"
  shows "lo \<le> unat (storeQuotient (Some (sum_list vs)) (length vs))
         \<and> unat (storeQuotient (Some (sum_list vs)) (length vs)) \<le> hi"
proof -
  have n: "0 < length vs" using assms(1) by simp
  have b: "lo * length vs \<le> sum_list vs" "sum_list vs \<le> hi * length vs"
    using sum_list_bounds [of vs lo hi] assms(2) by auto
  have "(of_nat (lo * length vs) :: rat) \<le> of_nat (sum_list vs)"
    using b(1) by (simp only: of_nat_le_iff)
  then have l: "(of_nat lo :: rat) \<le> of_nat (sum_list vs) / of_nat (length vs)"
    using n by (simp add: pos_le_divide_eq)
  have "(of_nat (sum_list vs) :: rat) \<le> of_nat (hi * length vs)"
    using b(2) by (simp only: of_nat_le_iff)
  then have h: "(of_nat (sum_list vs) :: rat) / of_nat (length vs) \<le> of_nat hi"
    using n by (simp add: pos_divide_le_eq)
  show ?thesis
    using toUint8Clamp_between [OF l h assms(3)] n by (simp add: storeQuotient_def)
qed

lemma channelSum_fold:
  assumes "\<And>idx. idx \<in> set idxs \<Longrightarrow> idx + k < length tempData"
  shows "fold (\<lambda>idx acc. numAdd acc (taGet tempData (idx + k))) idxs (Some s)
           = Some (s + sum_list (map (\<lambda>idx. unat (tempData ! (idx + k))) idxs))"
  using assms
proof (induction idxs arbitrary: s)
  case Nil
  then show ?case by simp
next
  case (Cons a idxs)
  have "numAdd (Some s) (taGet tempData (a + k)) = Some (s + unat (tempData ! (a + k)))"
    using Cons.prems [of a] by (simp add: numAdd_def taGet_def)
  then show ?case using Cons.IH [of "s + unat (tempData ! (a + k))"] Cons.prems
    by (simp add: add.assoc)
qed

lemma channelSum_eq:
  assumes "\<And>idx. idx \<in> set idxs \<Longrightarrow> idx + k < length tempData"
  shows "channelSum tempData idxs k = Some (sum_list (map (\<lambda>idx. unat (tempData ! (idx + k))) idxs))"
  unfolding channelSum_def using channelSum_fold [of idxs k tempData 0] assms by simp

lemma fold_fold_product:
  "fold (\<lambda>y d. fold (\<lambda>x d'. f x y d') xs d) ys d0 = fold (\<lambda>(y, x) d. f x y d) (List.product ys xs) d0"
proof (induction ys arbitrary: d0)
  case Nil
  then show ?case by simp
next
  case (Cons y ys)
  have "fold (\<lambda>(y, x). f x y) (map (Pair y) xs) d0 = fold (\<lambda>x. f x y) xs d0"
    by (simp add: fold_map comp_def)
  with Cons show ?case by simp
qed

lemma length_fold_write4:
  "length (fold (\<lambda>q d. d[ix q := v0 q, ix q + 1 := v1 q, ix q + 2 := v2 q, ix q + 3 := v3 q]) ps d)
     = length d"
  by (induction ps arbitrary: d) simp_all

lemma fold_write4_other:
  assumes "\<And>q. q \<in> set ps \<Longrightarrow> ix q + 3 < i \<or> i < ix q"
  shows "fold (\<lambda>q d. d[ix q := v0 q, ix q + 1 := v1 q, ix q + 2 := v2 q, ix q + 3 := v3 q]) ps d ! i
           = d ! i"
  using assms
proof (induction ps arbitrary: d)
  case Nil
  then show ?case by simp
next
  case (Cons a ps)
  have "ix a + 3 < i \<or> i < ix a" using Cons.prems by simp
  then have "d[ix a := v0 a, ix a + 1 := v1 a, ix a + 2 := v2 a, ix a + 3 := v3 a] ! i = d ! i"
    by auto
  then show ?case using Cons.IH Cons.prems by simp
qed

lemma fold_write4_hit:
  assumes "p \<in> set ps"
    and "\<And>q. q \<in> set ps \<Longrightarrow> q \<noteq> p \<Longrightarrow> ix q + 3 < ix p \<or> ix p + 3 < ix q"
    and "ix p + 3 < length d" "k < 4"
  shows "fold (\<lambda>q d. d[ix q := v0 q, ix q + 1 := v1 q, ix q + 2 := v2 q, ix q + 3 := v3 q]) ps d
           ! (ix p + k) = [v0 p, v1 p, v2 p, v3 p] ! k"
  using assms
proof (induction ps arbitrary: d)
  case Nil
  then show ?case by simp
next
  case (Cons a ps)
  let ?W = "\<lambda>q d. d[ix q := v0 q, ix q + 1 := v1 q, ix q + 2 := v2 q, ix q + 3 := v3 q]"
  show ?case
  proof (cases "p \<in> set ps")
    case True
    have "fold ?W ps (?W a d) ! (ix p + k) = [v0 p, v1 p, v2 p, v3 p] ! k"
      using True Cons.prems by (intro Cons.IH) simp_all
    then show ?thesis by simp
  next
    case False
    then have ap: "a = p" using Cons.prems(1) by simp
    have "\<And>q. q \<in> set ps \<Longrightarrow> ix q + 3 < ix p + k \<or> ix p + k < ix q"
    proof -
      fix q assume q: "q \<in> set ps"
      then have "q \<noteq> p" using False by auto
      then have "ix q + 3 < ix p \<or> ix p + 3 < ix q" using Cons.prems(2) q by simp
      then show "ix q + 3 < ix p + k \<or> ix p + k < ix q" using \<open>k < 4\<close> by linarith
    qed
    then have "fold ?W ps (?W a d) ! (ix p + k) = ?W a d ! (ix p + k)"
      by (rule fold_write4_other)
    also have "\<dots> = [v0 p, v1 p, v2 p, v3 p] ! k"
    proof -
      have "k = 0 \<or> k = 1 \<or> k = 2 \<or> k = 3" using \<open>k < 4\<close> by linarith
      then show ?thesis using Cons.prems(3) unfolding ap by (auto simp: nth_list_update)
    qed
    finally show ?thesis by simp
  qed
qed

lemma int_pair_inj:
  fixes x y x' y' w :: int
  assumes "0 \<le> x" "x < w" "0 \<le> x'" "x' < w" "y * w + x = y' * w + x'"
  shows "y = y' \<and> x = x'"
proof -
  have a: "(y * w + x) div w = y" using assms(1,2) by simp
  have b: "(y' * w + x') div w = y'" using assms(3,4) by simp
  have "(y * w + x) div w = (y' * w + x') div w" using assms(5) by (simp only:)
  then have "y = y'" using a b by (simp only:)
  then show ?thesis using assms(5) by simp
qed

lemma sep4: "(a::nat) \<noteq> b \<Longrightarrow> 4 * a + 3 < 4 * b \<or> 4 * b + 3 < 4 * a"
  by arith

lemma kernelIdx_conv:
  "kernelIdx width height radius x y =
     map (\<lambda>(dy, dx). nat (((y + dy) * width + (x + dx)) * 4))
       (filter (\<lambda>(dy, dx). x + dx \<ge> 0 \<and> x + dx < width \<and> y + dy \<ge> 0 \<and> y + dy < height)
          (List.product [- radius..radius] [- radius..radius]))"
  unfolding kernelIdx_def Let_def concat_map_if
  by (rule concat_map_product)

lemma kernelIdx_mem:
  "idx \<in> set (kernelIdx width height radius x y) \<longleftrightarrow>
     (\<exists>nx ny. 0 \<le> nx \<and> nx < width \<and> 0 \<le> ny \<and> ny < height
              \<and> \<bar>nx - x\<bar> \<le> radius \<and> \<bar>ny - y\<bar> \<le> radius
              \<and> idx = nat ((ny * width + nx) * 4))"
proof
  assume "idx \<in> set (kernelIdx width height radius x y)"
  then obtain dy dx where d: "- radius \<le> dy" "dy \<le> radius" "- radius \<le> dx" "dx \<le> radius"
      "x + dx \<ge> 0" "x + dx < width" "y + dy \<ge> 0" "y + dy < height"
      "idx = nat (((y + dy) * width + (x + dx)) * 4)"
    unfolding kernelIdx_conv by auto
  show "\<exists>nx ny. 0 \<le> nx \<and> nx < width \<and> 0 \<le> ny \<and> ny < height
              \<and> \<bar>nx - x\<bar> \<le> radius \<and> \<bar>ny - y\<bar> \<le> radius
              \<and> idx = nat ((ny * width + nx) * 4)"
    by (rule exI [of _ "x + dx"], rule exI [of _ "y + dy"]) (use d in \<open>simp add: abs_le_iff\<close>)
next
  assume "\<exists>nx ny. 0 \<le> nx \<and> nx < width \<and> 0 \<le> ny \<and> ny < height
              \<and> \<bar>nx - x\<bar> \<le> radius \<and> \<bar>ny - y\<bar> \<le> radius
              \<and> idx = nat ((ny * width + nx) * 4)"
  then obtain nx ny where n: "0 \<le> nx" "nx < width" "0 \<le> ny" "ny < height"
      "\<bar>nx - x\<bar> \<le> radius" "\<bar>ny - y\<bar> \<le> radius" "idx = nat ((ny * width + nx) * 4)"
    by blast
  have "(ny - y, nx - x) \<in> set (filter (\<lambda>(dy, dx). x + dx \<ge> 0 \<and> x + dx < width \<and> y + dy \<ge> 0 \<and> y + dy < height)
          (List.product [- radius..radius] [- radius..radius]))"
    using n by auto
  then have "(\<lambda>(dy, dx). nat (((y + dy) * width + (x + dx)) * 4)) (ny - y, nx - x)
               \<in> set (kernelIdx width height radius x y)"
    unfolding kernelIdx_conv set_map by (rule imageI)
  then show "idx \<in> set (kernelIdx width height radius x y)" using n(7) by simp
qed

lemma pixel_offset:
  assumes "0 \<le> nx" "nx < width" "0 \<le> ny" "ny < height"
  shows "nat ((ny * width + nx) * 4) = 4 * (nat ny * nat width + nat nx)"
    and "nat ny * nat width + nat nx < nat width * nat height"
proof -
  define m where "m = nat ny * nat width + nat nx"
  have w: "0 \<le> width" using assms by simp
  have "ny * width + nx = int m"
    unfolding m_def using assms w by simp
  then have "(ny * width + nx) * 4 = int (4 * m)" by simp
  then have "nat ((ny * width + nx) * 4) = 4 * m" by (simp only: nat_int)
  then show "nat ((ny * width + nx) * 4) = 4 * (nat ny * nat width + nat nx)"
    unfolding m_def .
  show "nat ny * nat width + nat nx < nat width * nat height"
    using assms by (intro pixel_index_less) simp_all
qed

lemma gaussianBlur_nth:
  assumes "0 \<le> x" "x < width" "0 \<le> y" "y < height"
    and "length data = 4 * (nat width * nat height)" "k < 4"
  shows "gaussianBlur data width height radius ! (4 * (nat y * nat width + nat x) + k) =
           storeQuotient (channelSum data (kernelIdx width height radius x y) k)
             (length (kernelIdx width height radius x y))"
proof -
  let ?ix = "\<lambda>(y, x). nat ((y * width + x) * 4)"
  let ?v = "\<lambda>k (y, x). storeQuotient (channelSum data (kernelIdx width height radius x y) k)
             (length (kernelIdx width height radius x y))"
  let ?ps = "List.product [0..height - 1] [0..width - 1]"
  have g: "gaussianBlur data width height radius =
             fold (\<lambda>q d. d[?ix q := ?v 0 q, ?ix q + 1 := ?v 1 q, ?ix q + 2 := ?v 2 q, ?ix q + 3 := ?v 3 q])
               ?ps data"
  proof -
    have "(\<lambda>(y, x) d. blurPixel data width height radius x y d)
            = (\<lambda>q d. d[?ix q := ?v 0 q, ?ix q + 1 := ?v 1 q, ?ix q + 2 := ?v 2 q, ?ix q + 3 := ?v 3 q])"
      by (auto simp: blurPixel_def Let_def fun_eq_iff)
    then show ?thesis
      unfolding gaussianBlur_def Let_def fold_fold_product by simp
  qed
  have mem: "(y, x) \<in> set ?ps" using assms by simp
  have off: "?ix (y, x) = 4 * (nat y * nat width + nat x)"
    using pixel_offset(1) [OF assms(1-4)] by simp
  have len: "?ix (y, x) + 3 < length data"
    using pixel_offset(2) [OF assms(1-4)] assms(5) unfolding off by simp
  have sep: "\<And>q. q \<in> set ?ps \<Longrightarrow> q \<noteq> (y, x) \<Longrightarrow> ?ix q + 3 < ?ix (y, x) \<or> ?ix (y, x) + 3 < ?ix q"
  proof -
    fix q assume q: "q \<in> set ?ps" "q \<noteq> (y, x)"
    obtain y' x' where q': "q = (y', x')" by (cases q) auto
    have b: "0 \<le> x'" "x' < width" "0 \<le> y'" "y' < height" using q(1) q' by auto
    have "y' * width + x' \<noteq> y * width + x"
      using int_pair_inj [OF b(1,2) assms(1,2), of y' y] q(2) q' by auto
    moreover have "?ix q = 4 * (nat y' * nat width + nat x')"
      using pixel_offset(1) [OF b] q' by simp
    moreover have "int (nat y' * nat width + nat x') = y' * width + x'" using b by simp
    moreover have "int (nat y * nat width + nat x) = y * width + x" using assms by simp
    ultimately have "nat y' * nat width + nat x' \<noteq> nat y * nat width + nat x"
      by metis
    then show "?ix q + 3 < ?ix (y, x) \<or> ?ix (y, x) + 3 < ?ix q"
      unfolding off \<open>?ix q = 4 * (nat y' * nat width + nat x')\<close> by (rule sep4)
  qed
  have "fold (\<lambda>q d. d[?ix q := ?v 0 q, ?ix q + 1 := ?v 1 q, ?ix q + 2 := ?v 2 q, ?ix q + 3 := ?v 3 q])
          ?ps data ! (?ix (y, x) + k) = [?v 0 (y, x), ?v 1 (y, x), ?v 2 (y, x), ?v 3 (y, x)] ! k"
    using mem sep len assms(6) by (rule fold_write4_hit)
  moreover have "[?v 0 (y, x), ?v 1 (y, x), ?v 2 (y, x), ?v 3 (y, x)] ! k = ?v k (y, x)"
  proof -
    have "k = 0 \<or> k = 1 \<or> k = 2 \<or> k = 3" using assms(6) by linarith
    then show ?thesis by auto
  qed
  ultimately show ?thesis unfolding g off by simp
qed

lemma length_gaussianBlur: "length (gaussianBlur data width height radius) = length data"
proof -
  have "(\<lambda>(y, x) d. blurPixel data width height radius x y d)
          = (\<lambda>q d. d[(\<lambda>(y, x). nat ((y * width + x) * 4)) q :=
                        (\<lambda>(y, x). storeQuotient (channelSum data (kernelIdx width height radius x y) 0)
                           (length (kernelIdx width height radius x y))) q,
                      (\<lambda>(y, x). nat ((y * width + x) * 4)) q + 1 :=
                        (\<lambda>(y, x). storeQuotient (channelSum data (kernelIdx width height radius x y) 1)
                           (length (kernelIdx width height radius x y))) q,
                      (\<lambda>(y, x). nat ((y * width + x) * 4)) q + 2 :=
                        (\<lambda>(y, x). storeQuotient (channelSum data (kernelIdx width height radius x y) 2)
                           (length (kernelIdx width height radius x y))) q,
                      (\<lambda>(y, x). nat ((y * width + x) * 4)) q + 3 :=
                        (\<lambda>(y, x). storeQuotient (channelSum data (kernelIdx width height radius x y) 3)
                           (length (kernelIdx width height radius x y))) q])"
    by (auto simp: blurPixel_def Let_def fun_eq_iff)
  then show ?thesis
    unfolding gaussianBlur_def Let_def fold_fold_product by (simp only: length_fold_write4)
qed

lemma neighbourValues_conv:
  "neighbourValues snapshot w h x y ch =
     map (\<lambda>(ny, nx). unat (snapshot ! (4 * (ny * w + nx) + ch)))
       (filter (\<lambda>(ny, nx). \<bar>int nx - int x\<bar> \<le> 2 \<and> \<bar>int ny - int y\<bar> \<le> 2)
          (List.product [0..<h] [0..<w]))"
  unfolding neighbourValues_def concat_map_if
  by (rule concat_map_product)

lemma neighbourValues_memI:
  assumes "nx < w" "ny < h" "\<bar>int nx - int x\<bar> \<le> 2" "\<bar>int ny - int y\<bar> \<le> 2"
  shows "unat (snapshot ! (4 * (ny * w + nx) + ch)) \<in> set (neighbourValues snapshot w h x y ch)"
proof -
  have "(ny, nx) \<in> set (filter (\<lambda>(ny, nx). \<bar>int nx - int x\<bar> \<le> 2 \<and> \<bar>int ny - int y\<bar> \<le> 2)
          (List.product [0..<h] [0..<w]))"
    using assms by simp
  then have "(\<lambda>(ny, nx). unat (snapshot ! (4 * (ny * w + nx) + ch))) (ny, nx)
               \<in> set (neighbourValues snapshot w h x y ch)"
    unfolding neighbourValues_conv set_map by (rule imageI)
  then show ?thesis by simp
qed

lemma neighbourValues_le: "v \<in> set (neighbourValues snapshot w h x y ch) \<Longrightarrow> v \<le> 255"
  unfolding neighbourValues_conv using unat_byte_le by auto

text \<open>
  Claim C5. Every channel value the blur stores for a pixel of the block lies between
  the least and the greatest value the snapshot taken before the blur holds, for that
  channel, at the pixel's neighbours inside the block and the 5 by 5 kernel.
\<close>

theorem blur_bounded:
  assumes "length data = 4 * (w * h)" "x < w" "y < h" "ch < 4"
  shows "Min (set (neighbourValues data w h x y ch))
           \<le> unat (gaussianBlur data (int w) (int h) 2 ! (4 * (y * w + x) + ch))
         \<and> unat (gaussianBlur data (int w) (int h) 2 ! (4 * (y * w + x) + ch))
           \<le> Max (set (neighbourValues data w h x y ch))"
proof -
  let ?NV = "set (neighbourValues data w h x y ch)"
  let ?idxs = "kernelIdx (int w) (int h) 2 (int x) (int y)"
  let ?vs = "map (\<lambda>idx. unat (data ! (idx + ch))) ?idxs"
  have fin: "finite ?NV" by simp
  have inb: "idx + ch < length data \<and> unat (data ! (idx + ch)) \<in> ?NV" if mem: "idx \<in> set ?idxs" for idx
  proof -
    obtain nx ny where n: "0 \<le> nx" "nx < int w" "0 \<le> ny" "ny < int h"
        "\<bar>nx - int x\<bar> \<le> 2" "\<bar>ny - int y\<bar> \<le> 2" "idx = nat ((ny * int w + nx) * 4)"
      using mem unfolding kernelIdx_mem by blast
    have idx: "idx = 4 * (nat ny * w + nat nx)"
      using pixel_offset(1) [OF n(1-4)] n(7) by simp
    have lt: "nat ny * w + nat nx < w * h"
      using pixel_offset(2) [OF n(1-4)] by simp
    have "idx + ch < length data" using lt assms(1,4) unfolding idx by simp
    moreover have "unat (data ! (idx + ch)) \<in> ?NV"
      unfolding idx using n by (intro neighbourValues_memI) simp_all
    ultimately show ?thesis by simp
  qed
  have self: "4 * (y * w + x) \<in> set ?idxs"
  proof -
    have "nat ((int y * int w + int x) * 4) = 4 * (y * w + x)"
      using pixel_offset(1) [of "int x" "int w" "int y" "int h"] assms by simp
    then show ?thesis
      unfolding kernelIdx_mem
      using assms by (intro exI [of _ "int x"] exI [of _ "int y"]) simp
  qed
  then have ne: "?vs \<noteq> []" by auto
  have bounds: "Min ?NV \<le> v \<and> v \<le> Max ?NV" if "v \<in> set ?vs" for v
  proof -
    have "v \<in> ?NV" using that inb by auto
    then show ?thesis using fin by simp
  qed
  have hi: "Max ?NV \<le> 255"
  proof -
    have "?NV \<noteq> {}" using inb [OF self] by auto
    then have "Max ?NV \<in> ?NV" using fin by (rule Max_in [rotated])
    then show ?thesis by (rule neighbourValues_le)
  qed
  have "gaussianBlur data (int w) (int h) 2 ! (4 * (nat (int y) * nat (int w) + nat (int x)) + ch)
          = storeQuotient (channelSum data ?idxs ch) (length ?idxs)"
    using assms by (intro gaussianBlur_nth) simp_all
  moreover have "channelSum data ?idxs ch = Some (sum_list ?vs)"
    using inb by (intro channelSum_eq) simp
  ultimately have "gaussianBlur data (int w) (int h) 2 ! (4 * (y * w + x) + ch)
          = storeQuotient (Some (sum_list ?vs)) (length ?vs)"
    by simp
  then show ?thesis
    using mean_between [OF ne bounds hi] by simp
qed

theorem blur_bounded_witness:
  "length [10, 20, 30, 40, 50, 60, 70, 81 :: byte] = 4 * (2 * 1)
   \<and> (0::nat) < 2 \<and> (0::nat) < 1 \<and> (3::nat) < 4
   \<and> Min (set (neighbourValues [10, 20, 30, 40, 50, 60, 70, 81] 2 1 0 0 3))
        \<le> unat (gaussianBlur [10, 20, 30, 40, 50, 60, 70, 81] 2 1 2 ! (4 * (0 * 2 + 0) + 3))
   \<and> unat (gaussianBlur [10, 20, 30, 40, 50, 60, 70, 81] 2 1 2 ! (4 * (0 * 2 + 0) + 3))
        \<le> Max (set (neighbourValues [10, 20, 30, 40, 50, 60, 70, 81] 2 1 0 0 3))"
  using blur_bounded [of "[10, 20, 30, 40, 50, 60, 70, 81]" 2 1 0 0 3] by simp

section \<open>The random fill\<close>






text \<open>
  Every index of the pool is selected by the draws of one interval of \<open>[0, 1)\<close>, and these
  intervals all have the length \<open>1 / length pool\<close>: a source that is uniform on \<open>[0, 1)\<close>
  selects every pool entry equally often.
\<close>

lemma draw_index_interval:
  assumes "0 \<le> u" "0 < len"
  shows "nat \<lfloor>u * of_nat len\<rfloor> = k \<longleftrightarrow>
           (of_nat k :: rat) / of_nat len \<le> u \<and> u < (of_nat k + 1) / of_nat len"
proof -
  have l: "(0 :: rat) < of_nat len" using assms(2) by simp
  have "0 \<le> u * of_nat len" using assms(1) by simp
  then have "0 \<le> \<lfloor>u * of_nat len\<rfloor>" by simp
  then have "nat \<lfloor>u * of_nat len\<rfloor> = k \<longleftrightarrow> \<lfloor>u * of_nat len\<rfloor> = int k" by linarith
  also have "\<dots> \<longleftrightarrow> (of_nat k :: rat) \<le> u * of_nat len \<and> u * of_nat len < of_nat k + 1"
    by (simp add: floor_eq_iff)
  also have "\<dots> \<longleftrightarrow> (of_nat k :: rat) / of_nat len \<le> u \<and> u < (of_nat k + 1) / of_nat len"
    using l by (simp add: pos_divide_le_eq pos_less_divide_eq)
  finally show ?thesis .
qed







section \<open>The detector\<close>

lemma gridSteps_less: "v \<in> set (gridSteps a bound) \<Longrightarrow> v < bound"
proof (induction a bound rule: gridSteps.induct)
  case (1 a bound)
  show ?case
  proof (cases "a < bound")
    case True
    then have "v = a \<or> v \<in> set (gridSteps (a + gridSize) bound)"
      using "1.prems" by (subst (asm) gridSteps.simps) simp
    then show ?thesis using True "1.IH" by auto
  next
    case False
    then show ?thesis using "1.prems" by (subst (asm) gridSteps.simps) simp
  qed
qed

lemma pixelStats_blockBytes:
  assumes "i < w" "j < h"
  shows "pixelStats (blockBytes c x0 y0 w h) ((j * w + i) * 4) acc
           = pixelStep (sourcePixel c (x0 + int i) (y0 + int j)) acc"
proof -
  obtain r g b a where p: "sourcePixel c (x0 + int i) (y0 + int j) = (r, g, b, a)"
    by (metis prod_cases4)
  obtain t e n where acc: "acc = (t, e, n)" by (metis prod_cases3)
  let ?d = "blockBytes c x0 y0 w h"
  have lt: "j * w + i < w * h" using assms by (rule pixel_index_less)
  have rd: "taGet ?d ((j * w + i) * 4 + k) = Some (unat ([r, g, b, a] ! k))" if "k < 4" for k
  proof -
    have "(j * w + i) * 4 + k < length ?d" using lt that by (simp add: length_blockBytes)
    moreover have "?d ! ((j * w + i) * 4 + k) = [r, g, b, a] ! k"
      using nth_blockBytes [OF assms that, of c x0 y0] p
      by (simp add: pixelBytes_def mult.commute)
    ultimately show ?thesis by (simp add: taGet_def)
  qed
  from rd [of 0] rd [of 1] rd [of 2] rd [of 3] show ?thesis
    by (simp add: pixelStats_def pixelStep_def acc p numAdd_def isTransparent_def isExtreme_def
        luminance_def Let_def)
qed

lemma fold_pixelStep:
  "fold (\<lambda>q. pixelStep (pix q)) qs (t, b, n) =
     (t + length (filter isTransparent (map pix qs)),
      b + length (filter isExtreme (map pix qs)),
      n + length qs)"
  by (induction qs arbitrary: t b n) (simp_all add: pixelStep_def)

lemma blockPixels_conv:
  assumes "x < cwidth img" "y < cheight img"
  shows "blockPixels img x y =
           map (\<lambda>(dy, dx). bitmap img (int (x + dx)) (int (y + dy)))
             (List.product [0..<min gridSize (cheight img - y)] [0..<min gridSize (cwidth img - x)])"
proof -
  have xs: "[x..<min (x + gridSize) (cwidth img)] = map (\<lambda>dx. x + dx) [0..<min gridSize (cwidth img - x)]"
  proof -
    have "map (\<lambda>dx. dx + x) [0..<min gridSize (cwidth img - x)] = [x..<min gridSize (cwidth img - x) + x]"
      by (rule map_add_upt)
    moreover have "min gridSize (cwidth img - x) + x = min (x + gridSize) (cwidth img)"
      using assms by (auto simp: min_def)
    ultimately show ?thesis by (simp add: add.commute)
  qed
  have ys: "[y..<min (y + gridSize) (cheight img)] = map (\<lambda>dy. y + dy) [0..<min gridSize (cheight img - y)]"
  proof -
    have "map (\<lambda>dy. dy + y) [0..<min gridSize (cheight img - y)] = [y..<min gridSize (cheight img - y) + y]"
      by (rule map_add_upt)
    moreover have "min gridSize (cheight img - y) + y = min (y + gridSize) (cheight img)"
      using assms by (auto simp: min_def)
    ultimately show ?thesis by (simp add: add.commute)
  qed
  have "blockPixels img x y =
          concat (map (\<lambda>dy. map (\<lambda>dx. bitmap img (int (x + dx)) (int (y + dy)))
                              (filter (\<lambda>dx. True) [0..<min gridSize (cwidth img - x)]))
                      [0..<min gridSize (cheight img - y)])"
    unfolding blockPixels_def xs ys by (simp add: comp_def)
  also have "\<dots> = map (\<lambda>(dy, dx). bitmap img (int (x + dx)) (int (y + dy)))
             (filter (\<lambda>(dy, dx). True)
               (List.product [0..<min gridSize (cheight img - y)] [0..<min gridSize (cwidth img - x)]))"
    by (rule concat_map_product)
  finally show ?thesis by simp
qed

lemma blockStats_counts:
  assumes "x < cwidth img" "y < cheight img"
  shows "blockStats (blockBytes img 0 0 (cwidth img) (cheight img)) (cwidth img) (cheight img) x y
           = (transparentCount img x y, extremeCount img x y, blockTotal img x y)"
proof -
  let ?W = "cwidth img" and ?H = "cheight img"
  let ?data = "blockBytes img 0 0 ?W ?H"
  let ?qs = "List.product [0..<min gridSize (?H - y)] [0..<min gridSize (?W - x)]"
  let ?pix = "\<lambda>(dy, dx). bitmap img (int (x + dx)) (int (y + dy))"
  have "blockStats ?data ?W ?H x y =
          fold (\<lambda>(dy, dx) acc. pixelStats ?data (((y + dy) * ?W + (x + dx)) * 4) acc) ?qs (0, 0, 0)"
    unfolding blockStats_def by (rule fold_fold_product)
  also have "\<dots> = fold (\<lambda>q. pixelStep (?pix q)) ?qs (0, 0, 0)"
  proof (rule fold_cong [OF refl refl])
    fix q assume "q \<in> set ?qs"
    then obtain dy dx where q: "q = (dy, dx)" "dy < ?H - y" "dx < ?W - x" by auto
    then have b: "x + dx < ?W" "y + dy < ?H" by simp_all
    then have "inCanvas img (int (x + dx)) (int (y + dy))" by (simp add: inCanvas_def)
    then have "sourcePixel img (0 + int (x + dx)) (0 + int (y + dy)) = bitmap img (int (x + dx)) (int (y + dy))"
      by (simp add: sourcePixel_def)
    then show "(case q of (dy, dx) \<Rightarrow> \<lambda>acc. pixelStats ?data (((y + dy) * ?W + (x + dx)) * 4) acc)
                 = pixelStep (?pix q)"
      using pixelStats_blockBytes [OF b, of img 0 0] q(1) by (simp add: fun_eq_iff)
  qed
  also have "\<dots> = (0 + length (filter isTransparent (map ?pix ?qs)),
                     0 + length (filter isExtreme (map ?pix ?qs)), 0 + length ?qs)"
    by (rule fold_pixelStep)
  finally show ?thesis
    unfolding transparentCount_def extremeCount_def blockTotal_def blockPixels_conv [OF assms]
    by simp
qed

lemma blockSelection_inj:
  assumes "0 < W" "0 < H" "blockSelection W H x y = blockSelection W H x' y'"
  shows "x = x' \<and> y = y'"
proof -
  have "(of_nat x :: rat) / of_nat W = of_nat x' / of_nat W"
    and "(of_nat y :: rat) / of_nat H = of_nat y' / of_nat H"
    using assms(3) by (simp_all add: blockSelection_def)
  then show ?thesis using assms(1,2) by simp
qed

lemma detectWatermarks_pos:
  assumes "0 < cwidth img" "0 < cheight img"
  shows "detectWatermarks img =
           Inr (concat (map (\<lambda>y. concat (map (\<lambda>x.
                  if blockFlagged (blockStats (blockBytes img 0 0 (cwidth img) (cheight img))
                                     (cwidth img) (cheight img) x y)
                  then [blockSelection (cwidth img) (cheight img) x y] else [])
                (gridSteps 0 (cwidth img)))) (gridSteps 0 (cheight img))))"
  using assms getImageData_pos [of "int (cwidth img)" "int (cheight img)" img 0 0]
  by (simp add: detectWatermarks_def Let_def)

text \<open>
  Claim C1. For every image and every block of the detector's grid, the detector
  completes and its result holds the block's region if and only if the block's count of
  pixels with alpha below 200 exceeds 0.3 times its pixel count, or its count of pixels
  with luminance above 200 or below 50 exceeds 0.5 times its pixel count.
\<close>

theorem detect_flags_block:
  assumes "x \<in> set (gridSteps 0 (cwidth img))" "y \<in> set (gridSteps 0 (cheight img))"
  shows "\<exists>regions. detectWatermarks img = Inr regions
           \<and> (blockSelection (cwidth img) (cheight img) x y \<in> set regions \<longleftrightarrow>
                (of_nat (transparentCount img x y) :: rat) > 3 / 10 * of_nat (blockTotal img x y)
                \<or> (of_nat (extremeCount img x y) :: rat) > 1 / 2 * of_nat (blockTotal img x y))"
proof -
  let ?W = "cwidth img" and ?H = "cheight img"
  let ?data = "blockBytes img 0 0 ?W ?H"
  let ?F = "\<lambda>x y. blockFlagged (blockStats ?data ?W ?H x y)"
  let ?regions = "concat (map (\<lambda>y. concat (map (\<lambda>x.
                  if ?F x y then [blockSelection ?W ?H x y] else []) (gridSteps 0 ?W))) (gridSteps 0 ?H))"
  have xb: "x < ?W" and yb: "y < ?H" using assms by (auto dest: gridSteps_less)
  then have pos: "0 < ?W" "0 < ?H" by simp_all
  have d: "detectWatermarks img = Inr ?regions" using pos by (rule detectWatermarks_pos)
  have "blockSelection ?W ?H x y \<in> set ?regions \<longleftrightarrow>
          (\<exists>y' \<in> set (gridSteps 0 ?H). \<exists>x' \<in> set (gridSteps 0 ?W).
              ?F x' y' \<and> blockSelection ?W ?H x y = blockSelection ?W ?H x' y')"
    by (auto split: if_splits)
  also have "\<dots> \<longleftrightarrow> ?F x y"
    using assms blockSelection_inj [OF pos] by blast
  also have "\<dots> \<longleftrightarrow> (of_nat (transparentCount img x y) :: rat) > 3 / 10 * of_nat (blockTotal img x y)
                \<or> (of_nat (extremeCount img x y) :: rat) > 1 / 2 * of_nat (blockTotal img x y)"
    unfolding blockStats_counts [OF xb yb] by (simp add: blockFlagged_def mult.commute)
  finally show ?thesis using d by blast
qed

theorem detect_flags_block_witness:
  "32 \<in> set (gridSteps 0 (cwidth (grayCanvas 40 33)))
   \<and> 32 \<in> set (gridSteps 0 (cheight (grayCanvas 40 33)))
   \<and> (\<exists>regions. detectWatermarks (grayCanvas 40 33) = Inr regions
         \<and> (blockSelection (cwidth (grayCanvas 40 33)) (cheight (grayCanvas 40 33)) 32 32 \<in> set regions \<longleftrightarrow>
              (of_nat (transparentCount (grayCanvas 40 33) 32 32) :: rat)
                 > 3 / 10 * of_nat (blockTotal (grayCanvas 40 33) 32 32)
              \<or> (of_nat (extremeCount (grayCanvas 40 33) 32 32) :: rat)
                 > 1 / 2 * of_nat (blockTotal (grayCanvas 40 33) 32 32)))"
proof -
  have w: "32 \<in> set (gridSteps 0 (cwidth (grayCanvas 40 33)))"
    by (simp add: grayCanvas_def gridSteps.simps gridSize_def)
  have h: "32 \<in> set (gridSteps 0 (cheight (grayCanvas 40 33)))"
    by (simp add: grayCanvas_def gridSteps.simps gridSize_def)
  show ?thesis
    using detect_flags_block [OF w h] w h by blast
qed

section \<open>The threshold of the transparency rule\<close>

lemma gridSteps_single: "0 < bound \<Longrightarrow> bound \<le> gridSize \<Longrightarrow> gridSteps 0 bound = [0]"
  by (subst gridSteps.simps, subst gridSteps.simps) simp

lemma length_blockPixels_full:
  "cwidth img = 32 \<Longrightarrow> cheight img = 32 \<Longrightarrow> length (blockPixels img 0 0) = 1024"
  by (simp add: blockPixels_def gridSize_def length_concat comp_def sum_list_triv)

lemma detect_two_alpha_block:
  assumes "cwidth img = 32" "cheight img = 32"
    and "set (blockPixels img 0 0) \<subseteq> {(128, 128, 128, 150), (128, 128, 128, 255)}"
    and "length (filter (alphaIs 150) (blockPixels img 0 0)) = k"
  shows "detectWatermarks img = Inr (if 308 \<le> k then [blockSelection 32 32 0 0] else [])"
proof -
  have two: "p = (128, 128, 128, 150) \<or> p = (128, 128, 128, 255)" if "p \<in> set (blockPixels img 0 0)" for p
    using that assms(3) by auto
  have "filter isTransparent (blockPixels img 0 0) = filter (alphaIs 150) (blockPixels img 0 0)"
  proof (rule filter_cong [OF refl])
    fix p assume "p \<in> set (blockPixels img 0 0)"
    then have "p = (128, 128, 128, 150) \<or> p = (128, 128, 128, 255)" by (rule two)
    then show "isTransparent p = alphaIs 150 p"
      by (auto simp: isTransparent_def alphaIs_def)
  qed
  then have t: "transparentCount img 0 0 = k" using assms(4) by (simp add: transparentCount_def)
  have "filter isExtreme (blockPixels img 0 0) = []"
  proof -
    have "\<not> isExtreme p" if "p \<in> set (blockPixels img 0 0)" for p
      using two [OF that] by (auto simp: isExtreme_def luminance_def)
    then show ?thesis by (simp add: filter_empty_conv)
  qed
  then have e: "extremeCount img 0 0 = 0" by (simp add: extremeCount_def)
  have n: "blockTotal img 0 0 = 1024"
    using assms(1,2) by (simp add: blockTotal_def length_blockPixels_full)
  have s: "blockStats (blockBytes img 0 0 32 32) 32 32 0 0 = (k, 0, 1024)"
    using blockStats_counts [of 0 img 0] assms(1,2) t e n by simp
  have f: "blockFlagged (k, 0, 1024) \<longleftrightarrow> 308 \<le> k"
  proof -
    have "(of_nat k :: rat) > 1024 * (3 / 10) \<longleftrightarrow> (of_nat (10 * k) :: rat) > of_nat 3072"
      by (simp add: mult.commute)
    also have "\<dots> \<longleftrightarrow> 3072 < 10 * k" by (simp only: of_nat_less_iff)
    also have "\<dots> \<longleftrightarrow> 308 \<le> k" by arith
    finally show ?thesis by (simp add: blockFlagged_def mult.commute)
  qed
  have "detectWatermarks img =
          Inr (concat (map (\<lambda>y. concat (map (\<lambda>x.
                  if blockFlagged (blockStats (blockBytes img 0 0 32 32) 32 32 x y)
                  then [blockSelection 32 32 x y] else [])
                (gridSteps 0 32))) (gridSteps 0 32)))"
    using detectWatermarks_pos [of img] unfolding assms(1) assms(2) by simp
  moreover have "gridSteps 0 32 = [0]" by (rule gridSteps_single) (simp_all add: gridSize_def)
  ultimately show ?thesis using s f by simp
qed

lemma rows_linear:
  "concat (map (\<lambda>py. map (\<lambda>px. f (py * w + px)) [0..<w]) [0..<h]) = map f [0..<h * w]"
proof (induction h)
  case 0
  then show ?case by simp
next
  case (Suc h)
  have "map f [h * w..<h * w + w] = map (\<lambda>px. f (h * w + px)) [0..<w]"
  proof -
    have "[h * w..<h * w + w] = map (\<lambda>px. px + h * w) [0..<w]"
      using map_add_upt [of "h * w" w] by (simp add: add.commute)
    then show ?thesis by (simp add: comp_def add.commute)
  qed
  moreover have "[0..<Suc h * w] = [0..<h * w] @ [h * w..<h * w + w]"
    using upt_add_eq_append [of 0 "h * w" w] by (simp add: add.commute)
  ultimately show ?case using Suc by simp
qed

lemma filter_less_upt: "filter (\<lambda>i. i < k) [0..<n] = [0..<min k n]"
proof (induction n)
  case 0
  then show ?case by simp
next
  case (Suc n)
  show ?case
  proof (cases "n < k")
    case True
    then have "min k (Suc n) = Suc n" "min k n = n" by simp_all
    then show ?thesis using Suc True by simp
  next
    case False
    then have "min k (Suc n) = min k n" by simp
    then show ?thesis using Suc False by simp
  qed
qed

lemma blockPixels_boundaryImage:
  "blockPixels (boundaryImage k) 0 0 =
     map (\<lambda>i. if i < k then (128, 128, 128, 150) else (128, 128, 128, 255)) [0..<1024]"
proof -
  let ?f = "\<lambda>i. if i < k then (128, 128, 128, 150) else (128, 128, 128, 255 :: byte)"
  have "bitmap (boundaryImage k) (int px) (int py) = ?f (py * 32 + px)" for px py
  proof -
    have "int py * 32 + int px < int k \<longleftrightarrow> py * 32 + px < k" by linarith
    then show ?thesis by (simp add: boundaryImage_def)
  qed
  then have "blockPixels (boundaryImage k) 0 0 =
               concat (map (\<lambda>py. map (\<lambda>px. ?f (py * 32 + px)) [0..<32]) [0..<32])"
    by (simp add: blockPixels_def boundaryImage_def gridSize_def)
  also have "\<dots> = map ?f [0..<32 * 32]" by (rule rows_linear)
  finally show ?thesis by simp
qed

lemma boundaryImage_count:
  assumes "k \<le> 1024"
  shows "length (filter (alphaIs 150) (blockPixels (boundaryImage k) 0 0)) = k"
proof -
  let ?f = "\<lambda>i. if i < k then (128, 128, 128, 150) else (128 :: byte, 128 :: byte, 128 :: byte, 255 :: byte)"
  let ?P = "alphaIs 150"
  have "filter (?P \<circ> ?f) [0..<1024] = filter (\<lambda>i. i < k) [0..<1024]"
    by (rule filter_cong [OF refl]) (simp add: alphaIs_def)
  then have "length (filter (?P \<circ> ?f) [0..<1024]) = length [0..<min k 1024]"
    by (simp only: filter_less_upt)
  then have "length (filter ?P (map ?f [0..<1024])) = k"
    using assms by (simp only: length_filter_map) simp
  then show ?thesis by (simp only: blockPixels_boundaryImage)
qed

lemma boundaryImage_two_alpha:
  "set (blockPixels (boundaryImage k) 0 0) \<subseteq> {(128, 128, 128, 150), (128, 128, 128, 255)}"
  unfolding blockPixels_boundaryImage by auto

text \<open>
  Claim C7, as the code has it. The block is flagged when strictly more than
  \<open>0.3 \<times> 1024 = 307.2\<close> of its pixels are transparent. So a 32 by 32 mid-gray block whose
  pixels have alpha 150 or 255 is flagged exactly when at least 308 pixels have alpha
  150: 308 are enough, 307 and 306 are not.
\<close>

theorem threshold_boundary:
  assumes "cwidth img = 32" "cheight img = 32"
    and "set (blockPixels img 0 0) \<subseteq> {(128, 128, 128, 150), (128, 128, 128, 255)}"
    and "length (filter (alphaIs 150) (blockPixels img 0 0)) = k"
  shows "detectWatermarks img = Inr (if 308 \<le> k then [blockSelection 32 32 0 0] else [])"
  using assms by (rule detect_two_alpha_block)

theorem threshold_boundary_witness:
  "cwidth (boundaryImage 308) = 32 \<and> cheight (boundaryImage 308) = 32
   \<and> set (blockPixels (boundaryImage 308) 0 0) \<subseteq> {(128, 128, 128, 150), (128, 128, 128, 255)}
   \<and> length (filter (alphaIs 150) (blockPixels (boundaryImage 308) 0 0)) = 308
   \<and> detectWatermarks (boundaryImage 308) = Inr [blockSelection 32 32 0 0]"
proof -
  have d: "cwidth (boundaryImage 308) = 32" "cheight (boundaryImage 308) = 32"
    by (simp_all add: boundaryImage_def)
  have c: "length (filter (alphaIs 150) (blockPixels (boundaryImage 308) 0 0)) = 308"
    by (rule boundaryImage_count) simp
  show ?thesis
    using threshold_boundary [OF d boundaryImage_two_alpha c] d boundaryImage_two_alpha [of 308] c
    by simp
qed

theorem threshold_307_not_flagged:
  "cwidth (boundaryImage 307) = 32 \<and> cheight (boundaryImage 307) = 32
   \<and> set (blockPixels (boundaryImage 307) 0 0) \<subseteq> {(128, 128, 128, 150), (128, 128, 128, 255)}
   \<and> length (filter (alphaIs 150) (blockPixels (boundaryImage 307) 0 0)) = 307
   \<and> detectWatermarks (boundaryImage 307) = Inr []"
proof -
  have d: "cwidth (boundaryImage 307) = 32" "cheight (boundaryImage 307) = 32"
    by (simp_all add: boundaryImage_def)
  have c: "length (filter (alphaIs 150) (blockPixels (boundaryImage 307) 0 0)) = 307"
    by (rule boundaryImage_count) simp
  show ?thesis
    using detect_two_alpha_block [OF d boundaryImage_two_alpha c] d boundaryImage_two_alpha [of 307] c
    by simp
qed

section \<open>Progress reports\<close>









end
